theory Spec2Isabelle
  imports Main "HOL-Library.Sublist"
begin

section \<open>Data model\<close>

text \<open>
  The repository is a single React page (\<^verbatim>\<open>src/app/page.tsx\<close>) in three revisions, plus an
  earlier camera revision (\<^verbatim>\<open>src/unnamed/part_000\<close>). The keyboard classifier with the scan
  buffer, the 500 ms reset and the 200 ms auto-save timer is the second revision of
  \<^verbatim>\<open>page.tsx\<close>; the camera page is \<^verbatim>\<open>part_000\<close>.

  Strings are lists of characters. Times are the millisecond readings of \<^verbatim>\<open>Date.now()\<close>,
  natural numbers. Each handler is a function from the page's state to its new state; the
  clock reading the handler obtains is an argument.
\<close>

record ScannedItem =
  itemId :: string
  serialNumber :: string
  timestamp :: nat

datatype msg_type = Success | Error

text \<open>The \<^verbatim>\<open>useState\<close> cells that every revision of the page has.\<close>

record page_state =
  scannedItems :: "ScannedItem list"
  isScanning :: bool
  message :: "(msg_type \<times> string) option"

text \<open>
  The keyboard page adds \<^verbatim>\<open>currentScan\<close> and the four \<^verbatim>\<open>useRef\<close> cells. The browser's
  table of armed auto-save timeouts is part of the state: \<open>timers\<close> lists each armed timeout
  as (handle, due time), and \<open>nextTimer\<close> is the handle the next \<^verbatim>\<open>setTimeout\<close> returns.
  The timeouts that only dismiss the message or refocus the input field are not part of the
  model: \<open>message\<close> holds the last message a handler has set.
\<close>

record keyboard_page = page_state +
  currentScan :: string
  scanBufferRef :: string
  lastKeyTimeRef :: nat
  scannedItemsRef :: "ScannedItem list"
  autoSaveTimeoutRef :: "nat option"
  timers :: "(nat \<times> nat) list"
  nextTimer :: nat

text \<open>
  The camera page keeps the running decoder in \<^verbatim>\<open>scannerRef\<close>. The decoder holds the success
  callback it was started with, and that callback calls the \<^verbatim>\<open>handleScanSuccess\<close> of the
  render in which \<^verbatim>\<open>startScanning\<close> ran; the only variable of that closure that differs from
  render to render is \<^verbatim>\<open>scannedItems\<close>, so the decoder is modelled by the list it captured.
\<close>

datatype Html5Qrcode = Html5Qrcode (capturedItems: "ScannedItem list")

record camera_page = page_state +
  scannerRef :: "Html5Qrcode option"

record key_event =
  key :: string
  ctrlKey :: bool
  metaKey :: bool
  altKey :: bool

section \<open>String helpers of the platform\<close>

text \<open>
  \<^verbatim>\<open>String.prototype.trim\<close> removes white space and line terminators from both ends. Among
  the code units below 256 these are 9 to 13, 32 and 160.
\<close>

definition isWhiteSpace :: "char \<Rightarrow> bool" where
  "isWhiteSpace c = ((of_char c :: nat) \<in> set [9, 10, 11, 12, 13, 32, 160])"

definition trim :: "string \<Rightarrow> string" where
  "trim s = rev (dropWhile isWhiteSpace (rev (dropWhile isWhiteSpace s)))"

text \<open>\<^verbatim>\<open>Number.prototype.toString\<close> on a non-negative integer: its decimal digits.\<close>

definition digit :: "nat \<Rightarrow> char" where
  "digit d = char_of (48 + d)"

fun toString :: "nat \<Rightarrow> string" where
  "toString n = (if n < 10 then [digit n] else toString (n div 10) @ [digit (n mod 10)])"

declare toString.simps [simp del]

text \<open>The number a decimal string denotes, to compare identifiers as numbers.\<close>

definition digitValue :: "char \<Rightarrow> nat" where
  "digitValue c = of_char c - 48"

definition parseNat :: "string \<Rightarrow> nat" where
  "parseNat s = foldl (\<lambda>acc c. 10 * acc + digitValue c) 0 s"

section \<open>The keyboard page\<close>

definition clearTimeout :: "nat \<Rightarrow> keyboard_page \<Rightarrow> keyboard_page" where
  "clearTimeout h s = s\<lparr>timers := filter (\<lambda>t. fst t \<noteq> h) (timers s)\<rparr>"

definition alreadyScanned :: "string \<Rightarrow> ScannedItem list \<Rightarrow> bool" where
  "alreadyScanned v items = list_ex (\<lambda>item. serialNumber item = v) items"

definition newItem :: "nat \<Rightarrow> string \<Rightarrow> ScannedItem" where
  "newItem now v = \<lparr>itemId = toString now, serialNumber = v, timestamp = now\<rparr>"

definition clearAutoSave :: "keyboard_page \<Rightarrow> keyboard_page" where
  "clearAutoSave s =
     (case autoSaveTimeoutRef s of
        None \<Rightarrow> s
      | Some h \<Rightarrow> (clearTimeout h s)\<lparr>autoSaveTimeoutRef := None\<rparr>)"

text \<open>\<^verbatim>\<open>saveScannedBarcode\<close>, page.tsx lines 246 to 279.\<close>

definition saveScannedBarcode :: "nat \<Rightarrow> string \<Rightarrow> keyboard_page \<Rightarrow> keyboard_page" where
  "saveScannedBarcode now scannedValue s =
     (if trim scannedValue = [] then s
      else
        let s1 =
              (if alreadyScanned (trim scannedValue) (scannedItemsRef s)
               then s\<lparr>message :=
                      Some (Error, ''Serial number '' @ trim scannedValue @ '' already scanned!'')\<rparr>
               else s\<lparr>scannedItems := scannedItems s @ [newItem now (trim scannedValue)],
                      message := Some (Success, ''Scanned: '' @ trim scannedValue)\<rparr>);
            s2 = s1\<lparr>scanBufferRef := [], currentScan := []\<rparr>
        in clearAutoSave s2)"

text \<open>The callback of the auto-save timeout, page.tsx lines 340 to 345.\<close>

definition autoSaveCallback :: "nat \<Rightarrow> keyboard_page \<Rightarrow> keyboard_page" where
  "autoSaveCallback now s =
     (if scanBufferRef s \<noteq> [] then saveScannedBarcode now (scanBufferRef s) s else s)"

definition setAutoSaveTimeout :: "nat \<Rightarrow> keyboard_page \<Rightarrow> keyboard_page" where
  "setAutoSaveTimeout now s =
     s\<lparr>autoSaveTimeoutRef := Some (nextTimer s),
       timers := timers s @ [(nextTimer s, now + 200)],
       nextTimer := nextTimer s + 1\<rparr>"

text \<open>\<^verbatim>\<open>handleGlobalKeyDown\<close>, page.tsx lines 299 to 352.\<close>

definition handleGlobalKeyDown :: "nat \<Rightarrow> key_event \<Rightarrow> keyboard_page \<Rightarrow> keyboard_page" where
  "handleGlobalKeyDown now e s =
     (if \<not> isScanning s then s
      else if key e = ''Enter'' then
        (if scanBufferRef s \<noteq> [] then saveScannedBarcode now (scanBufferRef s) s else s)
      else if length (key e) = 1 \<and> \<not> ctrlKey e \<and> \<not> metaKey e \<and> \<not> altKey e then
        let s1 = (if int now - int (lastKeyTimeRef s) > 500
                  then clearAutoSave (s\<lparr>scanBufferRef := []\<rparr>)
                  else s);
            s2 = s1\<lparr>scanBufferRef := scanBufferRef s1 @ key e,
                    currentScan := scanBufferRef s1 @ key e,
                    lastKeyTimeRef := now\<rparr>;
            s3 = (case autoSaveTimeoutRef s2 of None \<Rightarrow> s2 | Some h \<Rightarrow> clearTimeout h s2)
        in setAutoSaveTimeout now s3
      else s)"

text \<open>\<^verbatim>\<open>toggleScanning\<close>, page.tsx lines 373 to 382.\<close>

definition toggleScanning :: "keyboard_page \<Rightarrow> keyboard_page" where
  "toggleScanning s = s\<lparr>isScanning := \<not> isScanning s, scanBufferRef := [], currentScan := []\<rparr>"

text \<open>
  The cleanup of the listener effect (page.tsx lines 357 to 363), which React runs when
  \<^verbatim>\<open>isScanning\<close> has changed: it clears the armed timeout and leaves the ref as it is.
\<close>

definition effectCleanup :: "keyboard_page \<Rightarrow> keyboard_page" where
  "effectCleanup s = (case autoSaveTimeoutRef s of None \<Rightarrow> s | Some h \<Rightarrow> clearTimeout h s)"

text \<open>\<^verbatim>\<open>removeItem\<close>, the same in every revision (page.tsx lines 404 to 406).\<close>

definition removeItem :: "string \<Rightarrow> 'a page_state_scheme \<Rightarrow> 'a page_state_scheme" where
  "removeItem i s = s\<lparr>scannedItems := filter (\<lambda>item. itemId item \<noteq> i) (scannedItems s)\<rparr>"

text \<open>The effect that keeps the ref equal to the state (page.tsx lines 241 to 243).\<close>

definition syncRef :: "keyboard_page \<Rightarrow> keyboard_page" where
  "syncRef s = s\<lparr>scannedItemsRef := scannedItems s\<rparr>"

subsection \<open>The event loop\<close>

text \<open>
  One event is handled at a time, and React has rendered and run its effects before the next
  one. A timeout fires when its due time has come: before an event that arrives at time
  \<open>now\<close> is handled, every armed timeout that is due at \<open>now\<close> or earlier has fired, the
  earliest armed first, and its callback reads the clock at the due time.
\<close>

definition fireTimer :: "nat \<Rightarrow> nat \<Rightarrow> keyboard_page \<Rightarrow> keyboard_page" where
  "fireTimer h due s = syncRef (autoSaveCallback due (clearTimeout h s))"

function advance :: "nat \<Rightarrow> keyboard_page \<Rightarrow> keyboard_page" where
  "advance now s =
     (case find (\<lambda>t. snd t \<le> now) (timers s) of
        None \<Rightarrow> s
      | Some t \<Rightarrow> advance now (fireTimer (fst t) (snd t) s))"
  by pat_completeness auto

termination advance
proof (relation "measure (\<lambda>p. length (timers (snd p)))")
  show "wf (measure (\<lambda>p. length (timers (snd p))))"
    by simp
next
  fix now :: nat and s :: keyboard_page and t :: "nat \<times> nat"
  assume "find (\<lambda>t. snd t \<le> now) (timers s) = Some t"
  then have "t \<in> set (timers s)"
    by (auto simp: find_Some_iff)
  then have shorter: "length (filter (\<lambda>u. fst u \<noteq> fst t) (timers s)) < length (timers s)"
    by (intro length_filter_less [of t]) simp_all
  have callback: "length (timers (autoSaveCallback d s')) \<le> length (timers s')" for d s'
    by (simp add: autoSaveCallback_def saveScannedBarcode_def clearAutoSave_def
        clearTimeout_def Let_def split: option.splits)
  have "length (timers (fireTimer (fst t) (snd t) s))
        \<le> length (timers (clearTimeout (fst t) s))"
    using callback [of "snd t" "clearTimeout (fst t) s"]
    by (simp add: fireTimer_def syncRef_def)
  with shorter
  show "((now, fireTimer (fst t) (snd t) s), (now, s)) \<in> measure (\<lambda>p. length (timers (snd p)))"
    by (simp add: clearTimeout_def)
qed

declare advance.simps [simp del]

datatype event = KeyDown key_event | ToggleScanning | RemoveItem string

definition step :: "nat \<Rightarrow> event \<Rightarrow> keyboard_page \<Rightarrow> keyboard_page" where
  "step now ev s =
     (let s0 = advance now s in
      case ev of
        KeyDown e \<Rightarrow> syncRef (handleGlobalKeyDown now e s0)
      | ToggleScanning \<Rightarrow> syncRef (effectCleanup (toggleScanning s0))
      | RemoveItem i \<Rightarrow> syncRef (removeItem i s0))"

fun run :: "keyboard_page \<Rightarrow> (nat \<times> event) list \<Rightarrow> keyboard_page" where
  "run s [] = s"
| "run s (te # es) = run (step (fst te) (snd te) s) es"

text \<open>The page as it is mounted: \<^verbatim>\<open>isScanning\<close> starts true here.\<close>

definition initialPage :: keyboard_page where
  "initialPage =
     \<lparr>scannedItems = [], isScanning = True, message = None, currentScan = [],
      scanBufferRef = [], lastKeyTimeRef = 0, scannedItemsRef = [],
      autoSaveTimeoutRef = None, timers = [], nextTimer = 1\<rparr>"

text \<open>A printable key with no modifier held, and the stream a scanner types.\<close>

definition charKey :: "char \<Rightarrow> event" where
  "charKey c = KeyDown \<lparr>key = [c], ctrlKey = False, metaKey = False, altKey = False\<rparr>"

definition enterKey :: event where
  "enterKey = KeyDown \<lparr>key = ''Enter'', ctrlKey = False, metaKey = False, altKey = False\<rparr>"

text \<open>
  A page whose buffer still holds AB from a key at time 1000, with no timeout armed: what a
  handler meets when it runs long after the last key and the buffer has not been flushed.
\<close>

definition stalePage :: keyboard_page where
  "stalePage = initialPage\<lparr>scanBufferRef := ''AB'', currentScan := ''AB'', lastKeyTimeRef := 1000\<rparr>"

text \<open>Any page holding three records, made at times 1000, 2000 and 3000.\<close>

definition threeRecords :: page_state where
  "threeRecords =
     \<lparr>scannedItems = [newItem 1000 ''A1'', newItem 2000 ''A2'', newItem 3000 ''A3''],
      isScanning = True, message = None\<rparr>"

text \<open>An identifier read as a number.\<close>

definition idNumber :: "ScannedItem \<Rightarrow> nat" where
  "idNumber item = parseNat (itemId item)"

definition typing :: "(nat \<times> char) list \<Rightarrow> (nat \<times> event) list" where
  "typing cs = map (\<lambda>tc. (fst tc, charKey (snd tc))) cs"

text \<open>Each time of the list is no earlier than the one before and less than \<open>d\<close> after it.\<close>

fun gapsBelow :: "nat \<Rightarrow> nat list \<Rightarrow> bool" where
  "gapsBelow d (t # t' # ts) = (t \<le> t' \<and> t' < t + d \<and> gapsBelow d (t' # ts))"
| "gapsBelow d ts = True"

text \<open>
  At most one auto-save timeout is armed, the ref holds its handle, and the handle is one that
  \<^verbatim>\<open>setTimeout\<close> has already given out.
\<close>

definition timersOk :: "keyboard_page \<Rightarrow> bool" where
  "timersOk s =
     (case timers s of
        [] \<Rightarrow> True
      | [t] \<Rightarrow> autoSaveTimeoutRef s = Some (fst t) \<and> fst t < nextTimer s
      | _ \<Rightarrow> False)"

text \<open>The keys the listener accepts as characters of a scan (page.tsx line 318).\<close>

definition printable :: "key_event \<Rightarrow> bool" where
  "printable e = (length (key e) = 1 \<and> \<not> ctrlKey e \<and> \<not> metaKey e \<and> \<not> altKey e)"

text \<open>
  A scan is in progress whose last character came at \<open>t\<close>: scanning is on, the ref mirrors
  the list, and the one armed timeout is the one the ref holds, due 200 ms after \<open>t\<close>.
\<close>

definition scanInProgress :: "keyboard_page \<Rightarrow> nat \<Rightarrow> bool" where
  "scanInProgress s t =
     (isScanning s \<and> lastKeyTimeRef s = t \<and> scannedItemsRef s = scannedItems s \<and>
      (case timers s of
         [u] \<Rightarrow> snd u = t + 200 \<and> autoSaveTimeoutRef s = Some (fst u) \<and> fst u < nextTimer s
       | _ \<Rightarrow> False))"

section \<open>The camera page\<close>

text \<open>
  \<^verbatim>\<open>handleScanSuccess\<close>, part_000 lines 70 to 88. Its first argument is the \<^verbatim>\<open>scannedItems\<close>
  of the closure that runs, which the duplicate check reads; the state update appends to the
  current list (\<^verbatim>\<open>prev\<close>).
\<close>

definition handleScanSuccess ::
    "ScannedItem list \<Rightarrow> nat \<Rightarrow> string \<Rightarrow> camera_page \<Rightarrow> camera_page" where
  "handleScanSuccess closureItems now serial s =
     (if alreadyScanned serial closureItems
      then s\<lparr>message := Some (Error, ''Serial number '' @ serial @ '' already scanned!'')\<rparr>
      else s\<lparr>scannedItems := scannedItems s @ [newItem now serial],
             message := Some (Success, ''Scanned: '' @ serial)\<rparr>)"

text \<open>
  \<^verbatim>\<open>startScanning\<close>, part_000 lines 29 to 55; \<open>ok\<close> says whether the camera started. The
  decoder is created with the success callback of this render.
\<close>

definition startScanning :: "bool \<Rightarrow> camera_page \<Rightarrow> camera_page" where
  "startScanning ok s =
     (let s1 = s\<lparr>message := None, scannerRef := Some (Html5Qrcode (scannedItems s))\<rparr>
      in if ok then s1\<lparr>isScanning := True\<rparr>
         else s1\<lparr>message := Some (Error, ''Failed to start camera. Please check permissions.''),
                 isScanning := False\<rparr>)"

definition stopScanning :: "camera_page \<Rightarrow> camera_page" where
  "stopScanning s = s\<lparr>scannerRef := None, isScanning := False\<rparr>"

text \<open>The running decoder reports a decoded text: it calls the callback it holds.\<close>

definition decoded :: "nat \<Rightarrow> string \<Rightarrow> camera_page \<Rightarrow> camera_page" where
  "decoded now text s =
     (case scannerRef s of
        None \<Rightarrow> s
      | Some d \<Rightarrow> if isScanning s then handleScanSuccess (capturedItems d) now text s else s)"

definition initialCamera :: camera_page where
  "initialCamera = \<lparr>scannedItems = [], isScanning = False, message = None, scannerRef = None\<rparr>"

section \<open>Trimming\<close>

lemma dropWhile_rev_keep:
  assumes "dropWhile P a = a"
  shows "dropWhile P (rev (dropWhile P (rev a))) = rev (dropWhile P (rev a))"
proof (cases "dropWhile P (rev a) = []")
  case True
  show ?thesis unfolding True by simp
next
  case False
  have "rev a = takeWhile P (rev a) @ dropWhile P (rev a)"
    by simp
  then have "a = rev (dropWhile P (rev a)) @ rev (takeWhile P (rev a))"
    by (metis rev_append rev_rev_ident)
  then have "hd a = hd (rev (dropWhile P (rev a)))"
    using False by (metis hd_append2 rev_is_Nil_conv)
  moreover have "a \<noteq> []" using False by auto
  then have "\<not> P (hd a)" using assms by (metis hd_dropWhile)
  ultimately show ?thesis
    using False by (simp add: dropWhile_eq_self_iff)
qed

lemma trim_trim: "trim (trim v) = trim v"
  by (simp add: trim_def dropWhile_rev_keep)

section \<open>Timers and single key events\<close>

lemma advance_idle: "\<forall>t\<in>set (timers s). now < snd t \<Longrightarrow> advance now s = s"
proof -
  assume a: "\<forall>t\<in>set (timers s). now < snd t"
  have "find (\<lambda>t. snd t \<le> now) (timers s) = None"
    using a by (auto simp: find_None_iff)
  then show ?thesis by (simp add: advance.simps)
qed

lemma timers_autoSaveCallback_nil: "timers s = [] \<Longrightarrow> timers (autoSaveCallback d s) = []"
  by (simp add: autoSaveCallback_def saveScannedBarcode_def clearAutoSave_def
        clearTimeout_def Let_def split: option.splits)

lemma advance_single:
  assumes "timers s = [(h, d)]" "d \<le> now"
  shows "advance now s = fireTimer h d s" "timers (fireTimer h d s) = []"
proof -
  have c: "timers (clearTimeout h s) = []" using assms by (simp add: clearTimeout_def)
  show t: "timers (fireTimer h d s) = []"
    using timers_autoSaveCallback_nil[OF c] by (simp add: fireTimer_def syncRef_def)
  have "advance now s = advance now (fireTimer h d s)"
    using assms by (subst advance.simps) simp
  also have "\<dots> = fireTimer h d s" using t by (simp add: advance_idle)
  finally show "advance now s = fireTimer h d s" .
qed

lemma timersOk_cases:
  assumes "timersOk s"
  obtains "timers s = []"
  | h d where "timers s = [(h, d)]" "autoSaveTimeoutRef s = Some h" "h < nextTimer s"
  using assms by (auto simp: timersOk_def split: list.splits)

lemma handle_char:
  assumes "isScanning s" "printable e" "timersOk s"
  shows "handleGlobalKeyDown now e s =
     s\<lparr>currentScan := (if int now - int (lastKeyTimeRef s) > 500 then [] else scanBufferRef s) @ key e,
       scanBufferRef := (if int now - int (lastKeyTimeRef s) > 500 then [] else scanBufferRef s) @ key e,
       lastKeyTimeRef := now,
       autoSaveTimeoutRef := Some (nextTimer s),
       timers := [(nextTimer s, now + 200)],
       nextTimer := nextTimer s + 1\<rparr>"
proof -
  have ne: "key e \<noteq> ''Enter''" using assms(2) by (auto simp: printable_def)
  from assms(3) show ?thesis
  proof (cases rule: timersOk_cases)
    case 1
    then show ?thesis using assms(1,2) ne
      by (simp add: handleGlobalKeyDown_def printable_def clearAutoSave_def clearTimeout_def
          setAutoSaveTimeout_def Let_def split: option.splits)
  next
    case (2 h d)
    then show ?thesis using assms(1,2) ne
      by (simp add: handleGlobalKeyDown_def printable_def clearAutoSave_def clearTimeout_def
          setAutoSaveTimeout_def Let_def)
  qed
qed

lemma fireTimer_fields:
  "isScanning (fireTimer h d s) = isScanning s"
  "lastKeyTimeRef (fireTimer h d s) = lastKeyTimeRef s"
  "nextTimer (fireTimer h d s) = nextTimer s"
  "scannedItemsRef (fireTimer h d s) = scannedItems (fireTimer h d s)"
  by (simp_all add: fireTimer_def syncRef_def autoSaveCallback_def saveScannedBarcode_def
      clearAutoSave_def clearTimeout_def Let_def split: option.splits)

lemma timersOk_advance:
  assumes "timersOk s"
  shows "timersOk (advance now s)" "isScanning (advance now s) = isScanning s"
proof -
  from assms have "timersOk (advance now s) \<and> isScanning (advance now s) = isScanning s"
  proof (cases rule: timersOk_cases)
    case 1
    then show ?thesis using assms by (simp add: advance_idle)
  next
    case (2 h d)
    show ?thesis
    proof (cases "d \<le> now")
      case True
      then show ?thesis using advance_single[OF 2(1) True]
        by (simp add: timersOk_def fireTimer_fields)
    next
      case False
      then show ?thesis using 2 assms by (simp add: advance_idle)
    qed
  qed
  then show "timersOk (advance now s)" "isScanning (advance now s) = isScanning s" by simp_all
qed

lemma step_char_inProgress:
  assumes "isScanning s" "printable e" "timersOk s"
  shows "scanInProgress (step t (KeyDown e) s) t"
  using assms timersOk_advance[OF assms(3), of t]
  by (simp add: step_def handle_char scanInProgress_def syncRef_def Let_def)

lemma inProgress_cases:
  assumes "scanInProgress s t"
  obtains h where "timers s = [(h, t + 200)]" "autoSaveTimeoutRef s = Some h"
    "h < nextTimer s" "isScanning s" "lastKeyTimeRef s = t" "scannedItemsRef s = scannedItems s"
  using assms by (auto simp: scanInProgress_def split: list.splits)

lemma inProgress_timersOk: "scanInProgress s t \<Longrightarrow> timersOk s"
  by (auto simp: scanInProgress_def timersOk_def split: list.splits)

lemma inProgress_idle:
  assumes "scanInProgress s t" "now < t + 200"
  shows "advance now s = s"
  using assms by (auto elim!: inProgress_cases intro!: advance_idle)

lemma step_char_continue:
  assumes "scanInProgress s t" "t \<le> t'" "t' < t + 200" "printable e"
  shows "scanInProgress (step t' (KeyDown e) s) t'"
    and "scanBufferRef (step t' (KeyDown e) s) = scanBufferRef s @ key e"
    and "scannedItems (step t' (KeyDown e) s) = scannedItems s"
    and "message (step t' (KeyDown e) s) = message s"
proof -
  have ok: "timersOk s" and on: "isScanning s" and last: "lastKeyTimeRef s = t"
    using assms(1) by (auto simp: inProgress_timersOk elim: inProgress_cases)
  have idle: "advance t' s = s"
    using assms(1,3) by (rule inProgress_idle)
  show "scanInProgress (step t' (KeyDown e) s) t'"
    using on assms(4) ok by (rule step_char_inProgress)
  have gap: "\<not> int t' - int (lastKeyTimeRef s) > 500"
    using assms(2,3) last by simp
  show "scanBufferRef (step t' (KeyDown e) s) = scanBufferRef s @ key e"
    using gap by (simp add: step_def idle handle_char [OF on assms(4) ok] syncRef_def)
  show "scannedItems (step t' (KeyDown e) s) = scannedItems s"
    by (simp add: step_def idle handle_char [OF on assms(4) ok] syncRef_def)
  show "message (step t' (KeyDown e) s) = message s"
    by (simp add: step_def idle handle_char [OF on assms(4) ok] syncRef_def)
qed

lemma printable_charKey: "printable \<lparr>key = [c], ctrlKey = False, metaKey = False, altKey = False\<rparr>"
  by (simp add: printable_def)

lemma run_append: "run s (es @ es') = run (run s es) es'"
  by (induction es arbitrary: s) simp_all

lemma run_typing_conj:
  assumes "scanInProgress s t" "gapsBelow 200 (t # map fst cs)"
  shows "scanInProgress (run s (typing cs)) (last (t # map fst cs)) \<and>
         scanBufferRef (run s (typing cs)) = scanBufferRef s @ map snd cs \<and>
         scannedItems (run s (typing cs)) = scannedItems s \<and>
         message (run s (typing cs)) = message s"
  using assms
proof (induction cs arbitrary: s t)
  case Nil
  then show ?case by (simp add: typing_def)
next
  case (Cons tc cs)
  let ?e = "\<lparr>key = [snd tc], ctrlKey = False, metaKey = False, altKey = False\<rparr>"
  let ?s = "step (fst tc) (KeyDown ?e) s"
  from Cons.prems(2) have le: "t \<le> fst tc" and lt: "fst tc < t + 200"
    and rest: "gapsBelow 200 (fst tc # map fst cs)"
    by simp_all
  note one = step_char_continue [OF Cons.prems(1) le lt printable_charKey, of "snd tc"]
  have run: "run s (typing (tc # cs)) = run ?s (typing cs)"
    by (simp add: typing_def charKey_def)
  from Cons.IH [OF one(1) rest] one(2,3,4) show ?case
    by (simp add: run)
qed

lemma run_typing_continue:
  assumes "scanInProgress s t" "gapsBelow 200 (t # map fst cs)"
  shows "scanInProgress (run s (typing cs)) (last (t # map fst cs))"
    and "scanBufferRef (run s (typing cs)) = scanBufferRef s @ map snd cs"
    and "scannedItems (run s (typing cs)) = scannedItems s"
    and "message (run s (typing cs)) = message s"
  using run_typing_conj [OF assms] by blast+

lemma step_enter_inProgress:
  assumes "scanInProgress s t" "te < t + 200" "scanBufferRef s \<noteq> []"
  shows "step te enterKey s = syncRef (saveScannedBarcode te (scanBufferRef s) s)"
proof -
  have idle: "advance te s = s"
    using assms(1,2) by (rule inProgress_idle)
  have "isScanning s" using assms(1) by (auto elim: inProgress_cases)
  then show ?thesis using assms(3)
    by (simp add: step_def enterKey_def idle handleGlobalKeyDown_def)
qed

lemma step_first_char:
  assumes "isScanning s" "timers s = []" "scanBufferRef s = []" "printable e"
  shows "scanInProgress (step t (KeyDown e) s) t"
    and "scanBufferRef (step t (KeyDown e) s) = key e"
    and "scannedItems (step t (KeyDown e) s) = scannedItems s"
    and "message (step t (KeyDown e) s) = message s"
proof -
  have ok: "timersOk s" using assms(2) by (simp add: timersOk_def)
  have idle: "advance t s = s" using assms(2) by (simp add: advance_idle)
  show "scanInProgress (step t (KeyDown e) s) t"
    using assms(1,4) ok by (rule step_char_inProgress)
  show "scanBufferRef (step t (KeyDown e) s) = key e"
    using assms(3) by (simp add: step_def idle handle_char [OF assms(1,4) ok] syncRef_def)
  show "scannedItems (step t (KeyDown e) s) = scannedItems s"
    by (simp add: step_def idle handle_char [OF assms(1,4) ok] syncRef_def)
  show "message (step t (KeyDown e) s) = message s"
    by (simp add: step_def idle handle_char [OF assms(1,4) ok] syncRef_def)
qed

lemma save_items:
  "scannedItems (saveScannedBarcode now v s) =
     (if trim v = [] \<or> alreadyScanned (trim v) (scannedItemsRef s) then scannedItems s
      else scannedItems s @ [newItem now (trim v)])"
  by (simp add: saveScannedBarcode_def clearAutoSave_def clearTimeout_def Let_def
      split: option.splits)

lemma step_simps:
  "step now (KeyDown e) s = syncRef (handleGlobalKeyDown now e (advance now s))"
  "step now ToggleScanning s = syncRef (effectCleanup (toggleScanning (advance now s)))"
  "step now (RemoveItem i) s = syncRef (removeItem i (advance now s))"
  by (simp_all add: step_def)

lemma timersOk_syncRef: "timersOk (syncRef s) = timersOk s"
  by (simp add: timersOk_def syncRef_def split: list.splits)

lemma timersOk_nil: "timers s = [] \<Longrightarrow> timersOk s"
  by (simp add: timersOk_def)

lemma timers_save:
  assumes "timersOk s" "trim v \<noteq> []"
  shows "timers (saveScannedBarcode now v s) = []"
  using assms(1)
  by (cases rule: timersOk_cases)
    (simp_all add: assms(2) saveScannedBarcode_def clearAutoSave_def clearTimeout_def Let_def
      split: option.splits)

lemma timersOk_save:
  assumes "timersOk s"
  shows "timersOk (saveScannedBarcode now v s)"
proof (cases "trim v = []")
  case True
  then show ?thesis using assms by (simp add: saveScannedBarcode_def)
next
  case False
  then show ?thesis using timers_save [OF assms False] by (simp add: timersOk_nil)
qed

lemma timersOk_handle:
  assumes "timersOk s"
  shows "timersOk (handleGlobalKeyDown now e s)"
proof -
  consider "\<not> isScanning s" | "isScanning s" "key e = ''Enter''"
    | "isScanning s" "key e \<noteq> ''Enter''" "printable e"
    | "isScanning s" "key e \<noteq> ''Enter''" "\<not> printable e"
    by blast
  then show ?thesis
  proof cases
    case 1
    then show ?thesis using assms by (simp add: handleGlobalKeyDown_def)
  next
    case 2
    then show ?thesis using assms timersOk_save [OF assms]
      by (simp add: handleGlobalKeyDown_def)
  next
    case 3
    show ?thesis
      by (simp add: handle_char [OF 3(1,3) assms] timersOk_def)
  next
    case 4
    then show ?thesis using assms by (auto simp: handleGlobalKeyDown_def printable_def)
  qed
qed

lemma timersOk_step:
  assumes "timersOk s"
  shows "timersOk (step now ev s)"
proof -
  have ok: "timersOk (advance now s)"
    using assms by (rule timersOk_advance)
  show ?thesis
  proof (cases ev)
    case (KeyDown e)
    then show ?thesis using timersOk_handle [OF ok, of now e]
      by (simp add: step_simps timersOk_syncRef)
  next
    case ToggleScanning
    have "timers (effectCleanup (toggleScanning (advance now s))) = []"
      using ok
      by (cases rule: timersOk_cases)
        (simp_all add: effectCleanup_def toggleScanning_def clearTimeout_def
          split: option.splits)
    then show ?thesis
      by (simp add: ToggleScanning step_simps timersOk_syncRef timersOk_nil)
  next
    case (RemoveItem i)
    have "timersOk (removeItem i (advance now s))"
      using ok by (auto simp: timersOk_def removeItem_def split: list.splits)
    then show ?thesis
      by (simp add: RemoveItem step_simps timersOk_syncRef)
  qed
qed

lemma timersOk_length: "timersOk s \<Longrightarrow> length (timers s) \<le> 1"
  by (auto simp: timersOk_def split: list.splits)

lemma advance_nextTimer:
  assumes "timersOk s"
  shows "nextTimer (advance now s) = nextTimer s"
  using assms
proof (cases rule: timersOk_cases)
  case 1
  then show ?thesis by (simp add: advance_idle)
next
  case (2 h d)
  then show ?thesis
    by (cases "d \<le> now") (simp_all add: advance_single fireTimer_fields advance_idle)
qed

lemma step_char_timer:
  assumes "isScanning s" "printable e" "timersOk s"
  shows "timers (step t (KeyDown e) s) = [(nextTimer s, t + 200)]"
    and "autoSaveTimeoutRef (step t (KeyDown e) s) = Some (nextTimer s)"
    and "scanBufferRef (step t (KeyDown e) s) \<noteq> []"
proof -
  have ok: "timersOk (advance t s)" and on: "isScanning (advance t s)"
    using assms(1,3) by (simp_all add: timersOk_advance)
  have key: "key e \<noteq> []" using assms(2) by (auto simp: printable_def)
  show "timers (step t (KeyDown e) s) = [(nextTimer s, t + 200)]"
    by (simp add: step_simps handle_char [OF on assms(2) ok] syncRef_def
        advance_nextTimer [OF assms(3)])
  show "autoSaveTimeoutRef (step t (KeyDown e) s) = Some (nextTimer s)"
    by (simp add: step_simps handle_char [OF on assms(2) ok] syncRef_def
        advance_nextTimer [OF assms(3)])
  show "scanBufferRef (step t (KeyDown e) s) \<noteq> []"
    using key by (simp add: step_simps handle_char [OF on assms(2) ok] syncRef_def)
qed

lemma inProgress_fire:
  assumes "scanInProgress s t" "t + 200 \<le> now" "scanBufferRef s \<noteq> []"
  shows "advance now s = syncRef (saveScannedBarcode (t + 200) (scanBufferRef s) (s\<lparr>timers := []\<rparr>))"
    and "timers (advance now s) = []"
proof -
  from assms(1) obtain h where h: "timers s = [(h, t + 200)]"
    by (auto elim: inProgress_cases)
  have clear: "clearTimeout h s = s\<lparr>timers := []\<rparr>"
    using h by (simp add: clearTimeout_def)
  show "advance now s = syncRef (saveScannedBarcode (t + 200) (scanBufferRef s) (s\<lparr>timers := []\<rparr>))"
    using advance_single(1) [OF h assms(2)] assms(3)
    by (simp add: fireTimer_def clear autoSaveCallback_def)
  show "timers (advance now s) = []"
    using advance_single [OF h assms(2)] by simp
qed

lemma save_blank: "trim v = [] \<Longrightarrow> saveScannedBarcode now v s = s"
  by (simp add: saveScannedBarcode_def)

lemma save_trim: "saveScannedBarcode now (trim v) s = saveScannedBarcode now v s"
  by (simp add: saveScannedBarcode_def trim_trim)

lemma save_buffer: "trim v \<noteq> [] \<Longrightarrow> scanBufferRef (saveScannedBarcode now v s) = []"
  by (simp add: saveScannedBarcode_def clearAutoSave_def clearTimeout_def Let_def
      split: option.splits)

lemma save_isScanning: "isScanning (saveScannedBarcode now v s) = isScanning s"
  by (simp add: saveScannedBarcode_def clearAutoSave_def clearTimeout_def Let_def
      split: option.splits)

lemma enter_empty:
  "key e = ''Enter'' \<Longrightarrow> scanBufferRef s = [] \<Longrightarrow> handleGlobalKeyDown now e s = s"
  by (simp add: handleGlobalKeyDown_def)

lemma enter_twice:
  assumes "key e = ''Enter''"
  shows "handleGlobalKeyDown now' e (handleGlobalKeyDown now e s) = handleGlobalKeyDown now e s"
proof (cases "isScanning s \<and> scanBufferRef s \<noteq> []")
  case False
  then show ?thesis using assms by (auto simp: handleGlobalKeyDown_def)
next
  case True
  then have first: "handleGlobalKeyDown now e s = saveScannedBarcode now (scanBufferRef s) s"
    using assms by (simp add: handleGlobalKeyDown_def)
  show ?thesis
  proof (cases "trim (scanBufferRef s) = []")
    case blank: True
    then have same: "handleGlobalKeyDown now e s = s"
      by (simp add: first save_blank)
    show ?thesis
      unfolding same using True assms blank by (simp add: handleGlobalKeyDown_def save_blank)
  next
    case False
    then have "scanBufferRef (handleGlobalKeyDown now e s) = []"
      by (simp add: first save_buffer)
    with assms show ?thesis
      by (rule enter_empty)
  qed
qed

lemma syncRef_same: "scannedItemsRef s = scannedItems s \<Longrightarrow> syncRef s = s"
  by (simp add: syncRef_def [of s] flip: surjective)

lemma syncRef_syncRef: "syncRef (syncRef s) = syncRef s"
  by (simp add: syncRef_def)

lemma step_enter_late:
  assumes "scanInProgress s t" "t + 200 \<le> te" "scanBufferRef s \<noteq> []"
  shows "step te enterKey s
      = syncRef (saveScannedBarcode (t + 200) (scanBufferRef s) (s\<lparr>timers := []\<rparr>))"
proof -
  let ?s' = "syncRef (saveScannedBarcode (t + 200) (scanBufferRef s) (s\<lparr>timers := []\<rparr>))"
  let ?e = "\<lparr>key = ''Enter'', ctrlKey = False, metaKey = False, altKey = False\<rparr>"
  have fired: "advance te s = ?s'"
    using assms by (rule inProgress_fire(1))
  have on: "isScanning s" and sync: "scannedItemsRef s = scannedItems s"
    using assms(1) by (auto elim: inProgress_cases)
  have "handleGlobalKeyDown te ?e ?s' = ?s'"
  proof (cases "trim (scanBufferRef s) = []")
    case True
    then have same: "?s' = s\<lparr>timers := []\<rparr>"
      using sync by (simp add: save_blank syncRef_def)
    show ?thesis
      unfolding same using True on by (simp add: handleGlobalKeyDown_def save_blank)
  next
    case False
    then have "scanBufferRef ?s' = []"
      by (simp add: syncRef_def save_buffer)
    then show ?thesis
      by (intro enter_empty) simp_all
  qed
  then show ?thesis
    by (simp add: enterKey_def step_simps fired syncRef_syncRef)
qed

lemma advance_lastKeyTime:
  assumes "timersOk s"
  shows "lastKeyTimeRef (advance now s) = lastKeyTimeRef s"
  using assms
proof (cases rule: timersOk_cases)
  case 1
  then show ?thesis by (simp add: advance_idle)
next
  case (2 h d)
  then show ?thesis
    by (cases "d \<le> now") (simp_all add: advance_single fireTimer_fields advance_idle)
qed

lemma timersOk_initialPage: "timersOk initialPage"
  by (simp add: timersOk_def initialPage_def)

lemma timersOk_run: "timersOk s \<Longrightarrow> timersOk (run s es)"
  by (induction es arbitrary: s) (simp_all add: timersOk_step)

lemma save_message:
  assumes "trim v \<noteq> []"
  shows "message (saveScannedBarcode now v s) =
     (if alreadyScanned (trim v) (scannedItemsRef s)
      then Some (Error, ''Serial number '' @ trim v @ '' already scanned!'')
      else Some (Success, ''Scanned: '' @ trim v))"
  using assms
  by (simp add: saveScannedBarcode_def clearAutoSave_def clearTimeout_def Let_def
      split: option.splits)

section \<open>Keyboard scans\<close>

text \<open>
  Claim C1, as the code has it. Scanning is on, the buffer is empty, no timeout is armed and
  the ref mirrors the list. A non-empty sequence of printable characters arrives, each less
  than 200 ms (the auto-save delay) after the one before, and Enter arrives at any time after
  the last. Then typing the characters leaves the list as it was and the buffer holding their
  concatenation. That buffer is handed to \<^verbatim>\<open>saveScannedBarcode\<close> by the Enter handler when
  Enter comes less than 200 ms after the last character, and by the timeout otherwise, in
  which case Enter changes nothing more. Either way the list gains exactly one record, whose
  serial value is the trimmed concatenation, unless that value is empty or already in the
  list, in which case the list is unchanged.
\<close>

theorem C1_scan_then_enter:
  assumes "isScanning s" and "scanBufferRef s = []" and "timers s = []"
    and "scannedItemsRef s = scannedItems s"
    and "cs \<noteq> []" and "gapsBelow 200 (map fst cs)" and "last (map fst cs) \<le> te"
  shows "scannedItems (run s (typing cs)) = scannedItems s \<and>
         scanBufferRef (run s (typing cs)) = map snd cs \<and>
         (te < last (map fst cs) + 200 \<longrightarrow>
            run s (typing cs @ [(te, enterKey)])
              = syncRef (saveScannedBarcode te (map snd cs) (run s (typing cs)))) \<and>
         (last (map fst cs) + 200 \<le> te \<longrightarrow>
            run s (typing cs @ [(te, enterKey)])
              = syncRef (saveScannedBarcode (last (map fst cs) + 200) (map snd cs)
                  ((run s (typing cs))\<lparr>timers := []\<rparr>))) \<and>
         scannedItems (run s (typing cs @ [(te, enterKey)]))
           = (if trim (map snd cs) = [] \<or> alreadyScanned (trim (map snd cs)) (scannedItems s)
              then scannedItems s
              else scannedItems s @
                [newItem (if te < last (map fst cs) + 200 then te else last (map fst cs) + 200)
                   (trim (map snd cs))])"
proof -
  obtain tc cs' where cs: "cs = tc # cs'"
    using assms(5) by (cases cs) auto
  let ?e = "\<lparr>key = [snd tc], ctrlKey = False, metaKey = False, altKey = False\<rparr>"
  let ?s1 = "step (fst tc) (KeyDown ?e) s"
  let ?s2 = "run s (typing cs)"
  let ?last = "last (map fst cs)"
  note first = step_first_char [OF assms(1,3,2) printable_charKey, of "fst tc" "snd tc"]
  have run1: "?s2 = run ?s1 (typing cs')"
    by (simp add: cs typing_def charKey_def)
  have gaps: "gapsBelow 200 (fst tc # map fst cs')"
    using assms(6) by (simp add: cs)
  have last: "?last = last (fst tc # map fst cs')"
    by (simp add: cs)
  note more = run_typing_continue [OF first(1) gaps]
  have prog: "scanInProgress ?s2 ?last"
    unfolding run1 last by (rule more(1))
  have buf: "scanBufferRef ?s2 = map snd cs"
    unfolding run1 using more(2) first(2) by (simp add: cs)
  have items: "scannedItems ?s2 = scannedItems s"
    unfolding run1 using more(3) first(3) by simp
  have sync: "scannedItemsRef ?s2 = scannedItems s"
    using prog items by (auto elim: inProgress_cases)
  have some: "scanBufferRef ?s2 \<noteq> []"
    using buf assms(5) by simp
  have early: "run s (typing cs @ [(te, enterKey)])
      = syncRef (saveScannedBarcode te (map snd cs) ?s2)" if "te < ?last + 200"
    using step_enter_inProgress [OF prog that some] buf by (simp add: run_append)
  have late: "run s (typing cs @ [(te, enterKey)])
      = syncRef (saveScannedBarcode (?last + 200) (map snd cs) (?s2\<lparr>timers := []\<rparr>))"
    if "?last + 200 \<le> te"
    using step_enter_late [OF prog that some] buf by (simp add: run_append)
  have result: "scannedItems (run s (typing cs @ [(te, enterKey)]))
      = (if trim (map snd cs) = [] \<or> alreadyScanned (trim (map snd cs)) (scannedItems s)
         then scannedItems s
         else scannedItems s @
           [newItem (if te < ?last + 200 then te else ?last + 200) (trim (map snd cs))])"
  proof (cases "te < ?last + 200")
    case True
    then show ?thesis
      using items sync by (simp add: early save_items syncRef_def)
  next
    case False
    then show ?thesis
      using items sync by (simp add: late save_items syncRef_def)
  qed
  show ?thesis
    using items buf early late result by blast
qed

theorem C1_scan_then_enter_witness:
  "isScanning initialPage \<and>
   gapsBelow 200 (map fst
     [(1000, CHR ''A''), (1010, CHR ''B''), (1020, CHR ''C''),
      (1030, CHR ''1''), (1040, CHR ''2''), (1050, CHR ''3'')]) \<and>
   scannedItems (run initialPage
     (typing [(1000, CHR ''A''), (1010, CHR ''B''), (1020, CHR ''C''),
              (1030, CHR ''1''), (1040, CHR ''2''), (1050, CHR ''3'')] @ [(1060, enterKey)]))
     = [newItem 1060 ''ABC123'']"
proof -
  let ?cs = "[(1000, CHR ''A''), (1010, CHR ''B''), (1020, CHR ''C''),
              (1030, CHR ''1''), (1040, CHR ''2''), (1050, CHR ''3'')] :: (nat \<times> char) list"
  have page: "isScanning initialPage" "scanBufferRef initialPage = []"
    "timers initialPage = []" "scannedItemsRef initialPage = scannedItems initialPage"
    by (simp_all add: initialPage_def)
  have some: "?cs \<noteq> []"
    by simp
  have gaps: "gapsBelow 200 (map fst ?cs)"
    by simp
  have after: "last (map fst ?cs) \<le> 1060"
    by simp
  have fresh: "trim (map snd ?cs) = ''ABC123''" "scannedItems initialPage = []"
    "last (map fst ?cs) = 1050"
    by (simp_all add: trim_def isWhiteSpace_def initialPage_def)
  note all = C1_scan_then_enter [OF page some gaps after]
  from all [THEN conjunct2, THEN conjunct2, THEN conjunct2, THEN conjunct2]
  have "scannedItems (run initialPage (typing ?cs @ [(1060, enterKey)]))
          = [newItem 1060 ''ABC123'']"
    unfolding fresh by (simp add: alreadyScanned_def)
  with page(1) gaps show ?thesis
    by simp
qed

text \<open>
  Claim C1 as stated fails when a gap is at most the 500 ms silence threshold but more than
  the 200 ms auto-save delay: A at 1000, B at 1300 (a gap of 300 ms), Enter at 1310. The
  timeout armed by A fires at 1200 and records A; Enter then records B. The list holds two
  records, A and B, and no record AB.
\<close>

theorem C1_counterexample:
  "gapsBelow 501 [1000, 1300, 1310] \<and>
   map serialNumber (scannedItems (run initialPage
     (typing [(1000, CHR ''A''), (1300, CHR ''B'')] @ [(1310, enterKey)])))
     = [''A'', ''B'']"
  by code_simp

section \<open>The quiet timeout\<close>

lemma run_typing_from_empty:
  assumes "isScanning s" and "scanBufferRef s = []" and "timers s = []"
    and "cs \<noteq> []" and "gapsBelow 200 (map fst cs)"
  shows "scanInProgress (run s (typing cs)) (last (map fst cs))"
    and "scanBufferRef (run s (typing cs)) = map snd cs"
    and "scannedItems (run s (typing cs)) = scannedItems s"
    and "message (run s (typing cs)) = message s"
proof -
  obtain tc cs' where cs: "cs = tc # cs'"
    using assms(4) by (cases cs) auto
  let ?e = "\<lparr>key = [snd tc], ctrlKey = False, metaKey = False, altKey = False\<rparr>"
  let ?s1 = "step (fst tc) (KeyDown ?e) s"
  note first = step_first_char [OF assms(1,3,2) printable_charKey, of "fst tc" "snd tc"]
  have run1: "run s (typing cs) = run ?s1 (typing cs')"
    by (simp add: cs typing_def charKey_def)
  have gaps: "gapsBelow 200 (fst tc # map fst cs')"
    using assms(5) by (simp add: cs)
  have last: "last (map fst cs) = last (fst tc # map fst cs')"
    by (simp add: cs)
  note more = run_typing_continue [OF first(1) gaps]
  show "scanInProgress (run s (typing cs)) (last (map fst cs))"
    unfolding run1 last by (rule more(1))
  show "scanBufferRef (run s (typing cs)) = map snd cs"
    unfolding run1 using more(2) first(2) by (simp add: cs)
  show "scannedItems (run s (typing cs)) = scannedItems s"
    unfolding run1 using more(3) first(3) by simp
  show "message (run s (typing cs)) = message s"
    unfolding run1 using more(4) first(4) by simp
qed

lemma save_timers_cleared:
  "scannedItems (syncRef (saveScannedBarcode now v (p\<lparr>timers := []\<rparr>)))
     = scannedItems (saveScannedBarcode now v p)"
  "message (syncRef (saveScannedBarcode now v (p\<lparr>timers := []\<rparr>)))
     = message (saveScannedBarcode now v p)"
  "scanBufferRef (syncRef (saveScannedBarcode now v (p\<lparr>timers := []\<rparr>)))
     = scanBufferRef (saveScannedBarcode now v p)"
  by (simp_all add: syncRef_def saveScannedBarcode_def clearAutoSave_def clearTimeout_def Let_def
      split: option.splits)

text \<open>
  Claim C2, as the code has it. Scanning is on, the buffer is empty, no timeout is armed and
  the ref mirrors the list. A non-empty sequence of printable characters arrives, each less
  than 200 ms (the quiet timeout) after the one before, and no Enter. Then typing them flushes
  nothing: records and message are as before, the buffer holds the concatenation, and exactly
  one timeout is armed, due 200 ms after the last character. While the clock is below that
  due time, waiting changes nothing. Once the clock has reached it, the buffer has been
  flushed exactly once: the list has gained one record, made at the due time, whose serial
  value is the trimmed concatenation (or is unchanged, when that value is empty or already
  recorded), the message reports it, the buffer is empty again, no timeout is armed, and more
  waiting changes nothing. On any page, an accepted character leaves exactly one armed
  timeout, a fresh one due 200 ms later, and none of the timeouts armed before; and after any
  event at most one timeout is armed.
\<close>

theorem C2_quiet_timeout:
  assumes "isScanning s" and "scanBufferRef s = []" and "timers s = []"
    and "scannedItemsRef s = scannedItems s"
    and "cs \<noteq> []" and "gapsBelow 200 (map fst cs)"
  shows "scannedItems (run s (typing cs)) = scannedItems s \<and>
         message (run s (typing cs)) = message s \<and>
         scanBufferRef (run s (typing cs)) = map snd cs \<and>
         length (timers (run s (typing cs))) = 1 \<and>
         map snd (timers (run s (typing cs))) = [last (map fst cs) + 200] \<and>
         (now < last (map fst cs) + 200 \<longrightarrow>
            advance now (run s (typing cs)) = run s (typing cs)) \<and>
         (last (map fst cs) + 200 \<le> now \<longrightarrow>
            scannedItems (advance now (run s (typing cs)))
              = (if trim (map snd cs) = [] \<or> alreadyScanned (trim (map snd cs)) (scannedItems s)
                 then scannedItems s
                 else scannedItems s @ [newItem (last (map fst cs) + 200) (trim (map snd cs))]) \<and>
            message (advance now (run s (typing cs)))
              = (if trim (map snd cs) = [] then message s
                 else if alreadyScanned (trim (map snd cs)) (scannedItems s)
                 then Some (Error, ''Serial number '' @ trim (map snd cs) @ '' already scanned!'')
                 else Some (Success, ''Scanned: '' @ trim (map snd cs))) \<and>
            (trim (map snd cs) \<noteq> [] \<longrightarrow> scanBufferRef (advance now (run s (typing cs))) = []) \<and>
            timers (advance now (run s (typing cs))) = [] \<and>
            advance later (advance now (run s (typing cs))) = advance now (run s (typing cs))) \<and>
         (isScanning p \<and> timersOk p \<and> printable e \<longrightarrow>
            timers (step t (KeyDown e) p) = [(nextTimer p, t + 200)] \<and>
            autoSaveTimeoutRef (step t (KeyDown e) p) = Some (nextTimer p) \<and>
            set (timers (step t (KeyDown e) p)) \<inter> set (timers p) = {}) \<and>
         (timersOk p \<longrightarrow> timersOk (step t ev p) \<and> length (timers (step t ev p)) \<le> 1)"
proof -
  let ?s2 = "run s (typing cs)"
  let ?last = "last (map fst cs)"
  let ?v = "map snd cs"
  note typed = run_typing_from_empty [OF assms(1,2,3,5,6)]
  have sync: "scannedItemsRef ?s2 = scannedItems s"
    using typed(1,3) by (auto elim: inProgress_cases)
  have some: "scanBufferRef ?s2 \<noteq> []"
    using typed(2) assms(5) by simp
  have armed: "length (timers ?s2) = 1" "map snd (timers ?s2) = [?last + 200]"
    using typed(1) by (auto elim: inProgress_cases)
  have early: "advance now ?s2 = ?s2" if "now < ?last + 200"
    using typed(1) that by (rule inProgress_idle)
  have fired: "advance now ?s2
      = syncRef (saveScannedBarcode (?last + 200) ?v (?s2\<lparr>timers := []\<rparr>))"
    and none: "timers (advance now ?s2) = []" if "?last + 200 \<le> now"
    using inProgress_fire [OF typed(1) that some] by (simp_all add: typed(2))
  have items: "scannedItems (advance now ?s2)
      = (if trim ?v = [] \<or> alreadyScanned (trim ?v) (scannedItems s) then scannedItems s
         else scannedItems s @ [newItem (?last + 200) (trim ?v)])" if "?last + 200 \<le> now"
    by (simp add: fired [OF that] save_timers_cleared save_items sync typed(3))
  have msg: "message (advance now ?s2)
      = (if trim ?v = [] then message s
         else if alreadyScanned (trim ?v) (scannedItems s)
         then Some (Error, ''Serial number '' @ trim ?v @ '' already scanned!'')
         else Some (Success, ''Scanned: '' @ trim ?v))" if "?last + 200 \<le> now"
    by (simp add: fired [OF that] save_timers_cleared save_blank save_message sync typed(4))
  have emptied: "scanBufferRef (advance now ?s2) = []" if "?last + 200 \<le> now" "trim ?v \<noteq> []"
    by (simp add: fired [OF that(1)] save_timers_cleared save_buffer that(2))
  have once: "advance later (advance now ?s2) = advance now ?s2" if "?last + 200 \<le> now"
    using none [OF that] by (simp add: advance_idle)
  have rearm: "timers (step t (KeyDown e) p) = [(nextTimer p, t + 200)] \<and>
      autoSaveTimeoutRef (step t (KeyDown e) p) = Some (nextTimer p) \<and>
      set (timers (step t (KeyDown e) p)) \<inter> set (timers p) = {}"
    if p: "isScanning p" "timersOk p" "printable e"
  proof -
    note timer = step_char_timer [OF p(1,3,2), of t]
    have "set (timers (step t (KeyDown e) p)) \<inter> set (timers p) = {}"
      using p(2) by (cases rule: timersOk_cases) (simp_all add: timer(1))
    with timer(1,2) show ?thesis
      by simp
  qed
  have inv: "timersOk (step t ev p) \<and> length (timers (step t ev p)) \<le> 1" if "timersOk p"
    using timersOk_step [OF that, of t ev] timersOk_length [of "step t ev p"] by blast
  show ?thesis
    using typed(2,3,4) armed early items msg emptied none once rearm inv by blast
qed

theorem C2_quiet_timeout_witness:
  "isScanning initialPage \<and>
   gapsBelow 200 (map fst [(1000, CHR ''Z''), (1010, CHR ''9'')]) \<and>
   scannedItems (run initialPage (typing [(1000, CHR ''Z''), (1010, CHR ''9'')])) = [] \<and>
   advance 1209 (run initialPage (typing [(1000, CHR ''Z''), (1010, CHR ''9'')]))
     = run initialPage (typing [(1000, CHR ''Z''), (1010, CHR ''9'')]) \<and>
   scannedItems (advance 1500 (run initialPage (typing [(1000, CHR ''Z''), (1010, CHR ''9'')])))
     = [newItem 1210 ''Z9''] \<and>
   message (advance 1500 (run initialPage (typing [(1000, CHR ''Z''), (1010, CHR ''9'')])))
     = Some (Success, ''Scanned: Z9'') \<and>
   timers (advance 1500 (run initialPage (typing [(1000, CHR ''Z''), (1010, CHR ''9'')]))) = []"
proof -
  let ?cs = "[(1000, CHR ''Z''), (1010, CHR ''9'')] :: (nat \<times> char) list"
  let ?s2 = "run initialPage (typing ?cs)"
  have page: "isScanning initialPage" "scanBufferRef initialPage = []"
    "timers initialPage = []" "scannedItemsRef initialPage = scannedItems initialPage"
    by (simp_all add: initialPage_def)
  have some: "?cs \<noteq> []"
    by simp
  have gaps: "gapsBelow 200 (map fst ?cs)"
    by simp
  have vals: "trim (map snd ?cs) = ''Z9''" "scannedItems initialPage = []"
    "last (map fst ?cs) + 200 = 1210" "message initialPage = None"
    by (simp_all add: trim_def isWhiteSpace_def initialPage_def)
  note early = C2_quiet_timeout [OF page some gaps, where now = 1209]
  note late = C2_quiet_timeout [OF page some gaps, where now = 1500]
  have before: "(1209::nat) < last (map fst ?cs) + 200"
    by simp
  have after: "last (map fst ?cs) + 200 \<le> (1500::nat)"
    by simp
  have unchanged: "scannedItems ?s2 = []"
    using early [THEN conjunct1] by (simp only: vals)
  have idle: "advance 1209 ?s2 = ?s2"
    using early [THEN conjunct2, THEN conjunct2, THEN conjunct2, THEN conjunct2, THEN conjunct2,
        THEN conjunct1] before by (rule mp)
  note fired = late [THEN conjunct2, THEN conjunct2, THEN conjunct2, THEN conjunct2,
      THEN conjunct2, THEN conjunct2, THEN conjunct1, THEN mp, OF after]
  have rec: "scannedItems (advance 1500 ?s2) = [newItem 1210 ''Z9'']"
    using fired [THEN conjunct1] unfolding vals by (simp add: alreadyScanned_def)
  have msg: "message (advance 1500 ?s2) = Some (Success, ''Scanned: Z9'')"
    using fired [THEN conjunct2, THEN conjunct1] unfolding vals by (simp add: alreadyScanned_def)
  have none: "timers (advance 1500 ?s2) = []"
    by (rule fired [THEN conjunct2, THEN conjunct2, THEN conjunct2, THEN conjunct1])
  show ?thesis
    using page(1) gaps unchanged idle rec msg none by blast
qed

text \<open>
  Claim C2 as stated fails for a sequence with a pause longer than the quiet timeout inside
  it: A at 1000, B at 1300, no Enter, then silence. The timeout armed by A fires at 1200,
  before B has arrived, and records A; the timeout armed by B fires at 1500 and records B.
  When the sequence ends the list already holds A, and after the silence it holds two
  records, made at 1200 and 1500.
\<close>

theorem C2_counterexample:
  "map serialNumber (scannedItems (run initialPage
      (typing [(1000, CHR ''A''), (1300, CHR ''B'')]))) = [''A''] \<and>
   map itemId (scannedItems (advance 2000 (run initialPage
      (typing [(1000, CHR ''A''), (1300, CHR ''B'')])))) = [''1200'', ''1500''] \<and>
   map serialNumber (scannedItems (advance 2000 (run initialPage
      (typing [(1000, CHR ''A''), (1300, CHR ''B'')])))) = [''A'', ''B'']"
  by code_simp

section \<open>The silence threshold\<close>

text \<open>
  Claim C4. Scanning is on and a printable character arrives more than 500 ms after the last
  accepted one. Then the buffer after the handler is exactly that character: nothing from
  before the gap is left in it. The displayed scan is the same, the last key time is the
  arrival time, and the list of records is untouched by the handler. The buffer is that
  character after the whole event too, when at most one timeout was armed.
\<close>

theorem C4_gap_resets_buffer:
  assumes "isScanning s" and "printable e" and "int now - int (lastKeyTimeRef s) > 500"
  shows "scanBufferRef (handleGlobalKeyDown now e s) = key e \<and>
         currentScan (handleGlobalKeyDown now e s) = key e \<and>
         lastKeyTimeRef (handleGlobalKeyDown now e s) = now \<and>
         scannedItems (handleGlobalKeyDown now e s) = scannedItems s \<and>
         (timersOk s \<longrightarrow> scanBufferRef (step now (KeyDown e) s) = key e)"
proof -
  have ne: "key e \<noteq> ''Enter''" using assms(2) by (auto simp: printable_def)
  have handler: "scanBufferRef (handleGlobalKeyDown now e p) = key e \<and>
         currentScan (handleGlobalKeyDown now e p) = key e \<and>
         lastKeyTimeRef (handleGlobalKeyDown now e p) = now \<and>
         scannedItems (handleGlobalKeyDown now e p) = scannedItems p"
    if "isScanning p" "int now - int (lastKeyTimeRef p) > 500" for p
    using that assms(2) ne
    by (simp add: handleGlobalKeyDown_def printable_def clearAutoSave_def clearTimeout_def
          setAutoSaveTimeout_def Let_def split: option.splits)
  have event: "scanBufferRef (step now (KeyDown e) s) = key e" if "timersOk s"
    using handler [of "advance now s"] assms(1,3) that
    by (simp add: step_simps syncRef_def timersOk_advance advance_lastKeyTime)
  show ?thesis
    using handler [OF assms(1,3)] event by blast
qed

theorem C4_gap_resets_buffer_witness:
  "isScanning stalePage \<and> int 1501 - int (lastKeyTimeRef stalePage) > 500 \<and>
   scanBufferRef stalePage = ''AB'' \<and>
   scanBufferRef (handleGlobalKeyDown 1501
       \<lparr>key = ''C'', ctrlKey = False, metaKey = False, altKey = False\<rparr> stalePage) = ''C''"
proof -
  let ?e = "\<lparr>key = ''C'', ctrlKey = False, metaKey = False, altKey = False\<rparr>"
  have page: "isScanning stalePage" "printable ?e" "int 1501 - int (lastKeyTimeRef stalePage) > 500"
    by (simp_all add: stalePage_def initialPage_def printable_def)
  from C4_gap_resets_buffer [OF page] page show ?thesis
    by (simp add: stalePage_def)
qed



section \<open>Blank candidates\<close>

text \<open>
  Claim C7. \<^verbatim>\<open>saveScannedBarcode\<close> on a value that is empty after trimming returns the page
  exactly as it was: no record, no message, nothing else. It treats a value and its trimmed
  form alike, so the duplicate check sees the trimmed value. Enter on an empty buffer leaves
  the page as it was, and so does a second Enter right after a first one, whatever the first
  one did.
\<close>

theorem C7_blank_candidate_discarded:
  "(trim v = [] \<longrightarrow> saveScannedBarcode now v s = s) \<and>
   saveScannedBarcode now v s = saveScannedBarcode now (trim v) s \<and>
   (key e = ''Enter'' \<and> scanBufferRef s = [] \<longrightarrow> handleGlobalKeyDown now e s = s) \<and>
   (key e = ''Enter'' \<longrightarrow>
      handleGlobalKeyDown now' e (handleGlobalKeyDown now e s) = handleGlobalKeyDown now e s)"
proof -
  show ?thesis
    by (simp add: save_blank save_trim enter_twice enter_empty)
qed

theorem C7_blank_candidate_discarded_witness:
  "trim '' '' = [] \<and>
   saveScannedBarcode 1000 '' '' stalePage = stalePage \<and>
   handleGlobalKeyDown 1000 \<lparr>key = ''Enter'', ctrlKey = False, metaKey = False, altKey = False\<rparr>
     initialPage = initialPage \<and>
   handleGlobalKeyDown 1010 \<lparr>key = ''Enter'', ctrlKey = False, metaKey = False, altKey = False\<rparr>
     (handleGlobalKeyDown 1000
        \<lparr>key = ''Enter'', ctrlKey = False, metaKey = False, altKey = False\<rparr> stalePage)
   = handleGlobalKeyDown 1000
        \<lparr>key = ''Enter'', ctrlKey = False, metaKey = False, altKey = False\<rparr> stalePage"
proof -
  let ?e = "\<lparr>key = ''Enter'', ctrlKey = False, metaKey = False, altKey = False\<rparr>"
  have blank: "trim '' '' = []"
    by (simp add: trim_def isWhiteSpace_def)
  note a = C7_blank_candidate_discarded [where v = "'' ''" and now = 1000 and s = stalePage
      and e = ?e and now' = 1010]
  note b = C7_blank_candidate_discarded [where v = "'' ''" and now = 1000 and s = initialPage
      and e = ?e and now' = 1010]
  have "saveScannedBarcode 1000 '' '' stalePage = stalePage"
    using a [THEN conjunct1] blank by simp
  moreover have "handleGlobalKeyDown 1000 ?e initialPage = initialPage"
    using b [THEN conjunct2, THEN conjunct2, THEN conjunct1] by (simp add: initialPage_def)
  moreover have "handleGlobalKeyDown 1010 ?e (handleGlobalKeyDown 1000 ?e stalePage)
      = handleGlobalKeyDown 1000 ?e stalePage"
    using a [THEN conjunct2, THEN conjunct2, THEN conjunct2] by simp
  ultimately show ?thesis
    using blank by simp
qed

section \<open>Pausing\<close>

lemma step_disabled:
  assumes "\<not> isScanning s" "timers s = []" "scannedItemsRef s = scannedItems s"
  shows "step now (KeyDown e) s = s"
  using assms by (simp add: step_simps advance_idle handleGlobalKeyDown_def syncRef_same)

lemma run_disabled:
  assumes "\<not> isScanning s" "timers s = []" "scannedItemsRef s = scannedItems s"
  shows "run s (map (\<lambda>te. (fst te, KeyDown (snd te))) kes) = s"
  using assms by (induction kes) (simp_all add: step_disabled)

lemma toggle_off:
  assumes "timersOk s"
  shows "timers (syncRef (effectCleanup (toggleScanning s))) = []"
    and "scanBufferRef (syncRef (effectCleanup (toggleScanning s))) = []"
    and "isScanning (syncRef (effectCleanup (toggleScanning s))) = (\<not> isScanning s)"
    and "scannedItems (syncRef (effectCleanup (toggleScanning s))) = scannedItems s"
    and "message (syncRef (effectCleanup (toggleScanning s))) = message s"
    and "scannedItemsRef (syncRef (effectCleanup (toggleScanning s))) = scannedItems s"
  using assms
  by (cases rule: timersOk_cases;
      simp add: syncRef_def effectCleanup_def toggleScanning_def clearTimeout_def
        split: option.splits)+

text \<open>
  Between events the ref mirrors the list, and a timeout is armed only while the buffer holds
  something: on every page the events can reach, an empty buffer comes with no armed timeout.
\<close>

lemma step_synced: "scannedItemsRef (step now ev s) = scannedItems (step now ev s)"
  by (cases ev) (simp_all add: step_simps syncRef_def)

lemma handle_armed_buffer:
  assumes "timersOk s" and "timers s \<noteq> [] \<longrightarrow> scanBufferRef s \<noteq> []"
    and "timers (handleGlobalKeyDown now e s) \<noteq> []"
  shows "scanBufferRef (handleGlobalKeyDown now e s) \<noteq> []"
proof -
  consider "\<not> isScanning s" | "isScanning s" "key e = ''Enter''"
    | "isScanning s" "key e \<noteq> ''Enter''" "printable e"
    | "isScanning s" "key e \<noteq> ''Enter''" "\<not> printable e"
    by blast
  then show ?thesis
  proof cases
    case 1
    then have "handleGlobalKeyDown now e s = s"
      by (simp add: handleGlobalKeyDown_def)
    then show ?thesis using assms(2,3) by simp
  next
    case 2
    show ?thesis
    proof (cases "scanBufferRef s \<noteq> [] \<and> trim (scanBufferRef s) \<noteq> []")
      case True
      then have "timers (handleGlobalKeyDown now e s) = []"
        using 2 by (simp add: handleGlobalKeyDown_def timers_save [OF assms(1)])
      then show ?thesis using assms(3) by simp
    next
      case False
      then have "handleGlobalKeyDown now e s = s"
        using 2 by (auto simp: handleGlobalKeyDown_def save_blank)
      then show ?thesis using assms(2,3) by simp
    qed
  next
    case 3
    then have "key e \<noteq> []"
      by (auto simp: printable_def)
    then show ?thesis
      by (simp add: handle_char [OF 3(1,3) assms(1)])
  next
    case 4
    then have "handleGlobalKeyDown now e s = s"
      by (auto simp: handleGlobalKeyDown_def printable_def)
    then show ?thesis using assms(2,3) by simp
  qed
qed

lemma advance_still_armed:
  assumes "timersOk s" "timers (advance now s) \<noteq> []"
  shows "advance now s = s"
  using assms(1)
proof (cases rule: timersOk_cases)
  case 1
  then show ?thesis by (simp add: advance_idle)
next
  case (2 h d)
  have "\<not> d \<le> now"
    using advance_single [OF 2(1)] assms(2) by auto
  then show ?thesis
    using 2 by (simp add: advance_idle)
qed

lemma step_armed_buffer:
  assumes "timersOk s" and "timers s \<noteq> [] \<longrightarrow> scanBufferRef s \<noteq> []"
  shows "timers (step now ev s) \<noteq> [] \<longrightarrow> scanBufferRef (step now ev s) \<noteq> []"
proof -
  let ?a = "advance now s"
  have ok: "timersOk ?a"
    using assms(1) by (rule timersOk_advance)
  have inv: "timers ?a \<noteq> [] \<longrightarrow> scanBufferRef ?a \<noteq> []"
    using advance_still_armed [OF assms(1), of now] assms(2) by auto
  show ?thesis
  proof (cases ev)
    case (KeyDown e)
    show ?thesis
      using handle_armed_buffer [OF ok inv, of now e]
      by (simp add: KeyDown step_simps syncRef_def)
  next
    case ToggleScanning
    have "timers (step now ev s) = []"
      using toggle_off(1) [OF ok] by (simp add: ToggleScanning step_simps)
    then show ?thesis
      by simp
  next
    case (RemoveItem i)
    show ?thesis
      using inv by (simp add: RemoveItem step_simps syncRef_def removeItem_def)
  qed
qed

lemma run_armed_buffer:
  assumes "timersOk s" and "timers s \<noteq> [] \<longrightarrow> scanBufferRef s \<noteq> []"
  shows "timers (run s es) \<noteq> [] \<longrightarrow> scanBufferRef (run s es) \<noteq> []"
  using assms
proof (induction es arbitrary: s)
  case Nil
  then show ?case by simp
next
  case (Cons te es)
  show ?case
    using Cons.IH [OF timersOk_step [OF Cons.prems(1)] step_armed_buffer [OF Cons.prems]]
    by simp
qed

text \<open>
  Claim C8. A key event on a page that is not scanning returns the page as it was. When
  \<^verbatim>\<open>toggleScanning\<close> runs on a scanning page (with the effect cleanup and the re-render that
  follow it), the page is paused, the buffer is empty, no timeout is armed, and the records
  and the message are as before: the pending scan is dropped, not recorded. Any key events
  that follow change nothing, and after the next toggle the page scans again with an empty
  buffer, no timeout, and still the same records and message.
\<close>

theorem C8_disabled_session:
  assumes "isScanning s" and "timersOk s"
  shows "(\<not> isScanning p \<longrightarrow> handleGlobalKeyDown now e p = p) \<and>
         \<not> isScanning (syncRef (effectCleanup (toggleScanning s))) \<and>
         scanBufferRef (syncRef (effectCleanup (toggleScanning s))) = [] \<and>
         timers (syncRef (effectCleanup (toggleScanning s))) = [] \<and>
         scannedItems (syncRef (effectCleanup (toggleScanning s))) = scannedItems s \<and>
         message (syncRef (effectCleanup (toggleScanning s))) = message s \<and>
         run (syncRef (effectCleanup (toggleScanning s)))
             (map (\<lambda>te. (fst te, KeyDown (snd te))) kes)
           = syncRef (effectCleanup (toggleScanning s)) \<and>
         isScanning (step t ToggleScanning (syncRef (effectCleanup (toggleScanning s)))) \<and>
         scanBufferRef (step t ToggleScanning (syncRef (effectCleanup (toggleScanning s)))) = [] \<and>
         timers (step t ToggleScanning (syncRef (effectCleanup (toggleScanning s)))) = [] \<and>
         scannedItems (step t ToggleScanning (syncRef (effectCleanup (toggleScanning s))))
           = scannedItems s \<and>
         message (step t ToggleScanning (syncRef (effectCleanup (toggleScanning s)))) = message s"
proof -
  let ?off = "syncRef (effectCleanup (toggleScanning s))"
  note off = toggle_off [OF assms(2)]
  have ignore: "\<not> isScanning p \<longrightarrow> handleGlobalKeyDown now e p = p"
    by (simp add: handleGlobalKeyDown_def)
  have paused: "\<not> isScanning ?off"
    using assms(1) by (simp add: off(3))
  have quiet: "run ?off (map (\<lambda>te. (fst te, KeyDown (snd te))) kes) = ?off"
    using paused off(1,6) by (intro run_disabled) (simp_all add: off(4))
  have idle: "advance t ?off = ?off"
    using off(1) by (simp add: advance_idle)
  have ok: "timersOk ?off"
    using off(1) by (rule timersOk_nil)
  note on = toggle_off [OF ok]
  have again: "step t ToggleScanning ?off = syncRef (effectCleanup (toggleScanning ?off))"
    by (simp add: step_simps idle)
  show ?thesis
    unfolding again using ignore paused quiet off on by simp
qed


theorem C8_disabled_session_witness:
  "isScanning (step 1000 (charKey CHR ''A'') initialPage) \<and>
   timersOk (step 1000 (charKey CHR ''A'') initialPage) \<and>
   scanBufferRef (step 1000 (charKey CHR ''A'') initialPage) = ''A'' \<and>
   scanBufferRef (syncRef (effectCleanup (toggleScanning
       (step 1000 (charKey CHR ''A'') initialPage)))) = [] \<and>
   timers (syncRef (effectCleanup (toggleScanning
       (step 1000 (charKey CHR ''A'') initialPage)))) = [] \<and>
   scannedItems (syncRef (effectCleanup (toggleScanning
       (step 1000 (charKey CHR ''A'') initialPage)))) = [] \<and>
   handleGlobalKeyDown 1100 \<lparr>key = ''B'', ctrlKey = False, metaKey = False, altKey = False\<rparr>
       (syncRef (effectCleanup (toggleScanning (step 1000 (charKey CHR ''A'') initialPage))))
     = syncRef (effectCleanup (toggleScanning (step 1000 (charKey CHR ''A'') initialPage)))"
proof -
  let ?s = "step 1000 (charKey CHR ''A'') initialPage"
  let ?off = "syncRef (effectCleanup (toggleScanning ?s))"
  let ?e = "\<lparr>key = ''B'', ctrlKey = False, metaKey = False, altKey = False\<rparr>"
  have on: "isScanning ?s"
    by code_simp
  have ok: "timersOk ?s"
    by code_simp
  have buf: "scanBufferRef ?s = ''A''" and items: "scannedItems ?s = []"
    by code_simp+
  note all = C8_disabled_session [OF on ok, where p = ?off and now = 1100 and e = ?e]
  have paused: "\<not> isScanning ?off"
    by (rule all [THEN conjunct2, THEN conjunct1])
  have "handleGlobalKeyDown 1100 ?e ?off = ?off"
    using all [THEN conjunct1] paused by (rule mp)
  moreover have "scanBufferRef ?off = []"
    by (rule all [THEN conjunct2, THEN conjunct2, THEN conjunct1])
  moreover have "timers ?off = []"
    by (rule all [THEN conjunct2, THEN conjunct2, THEN conjunct2, THEN conjunct1])
  moreover have "scannedItems ?off = []"
    using all [THEN conjunct2, THEN conjunct2, THEN conjunct2, THEN conjunct2, THEN conjunct1]
    by (simp only: items)
  ultimately show ?thesis
    using on ok buf by blast
qed

section \<open>Removing a record\<close>

lemma removeItem_absent:
  assumes "i \<notin> itemId ` set (scannedItems s)"
  shows "removeItem i s = s"
proof -
  have "filter (\<lambda>item. itemId item \<noteq> i) (scannedItems s) = scannedItems s"
    using assms by (auto simp: filter_id_conv)
  then show ?thesis
    by (simp add: removeItem_def)
qed

text \<open>
  Claim C9. \<^verbatim>\<open>removeItem\<close> with an identifier that no record has returns the page as it
  was. With the identifier of one record, what is left is the records before it followed by
  the records after it. In every case no record with that identifier is left, the records
  left are exactly those with another identifier, in their old order, and scanning state and
  message are untouched.
\<close>

theorem C9_remove_item:
  "(i \<notin> itemId ` set (scannedItems s) \<longrightarrow> removeItem i s = s) \<and>
   (scannedItems s = xs @ x # ys \<and> itemId x = i \<and>
      i \<notin> itemId ` set xs \<and> i \<notin> itemId ` set ys \<longrightarrow>
      scannedItems (removeItem i s) = xs @ ys) \<and>
   i \<notin> itemId ` set (scannedItems (removeItem i s)) \<and>
   set (scannedItems (removeItem i s)) = {item \<in> set (scannedItems s). itemId item \<noteq> i} \<and>
   subseq (scannedItems (removeItem i s)) (scannedItems s) \<and>
   isScanning (removeItem i s) = isScanning s \<and> message (removeItem i s) = message s"
proof -
  have one: "scannedItems (removeItem i s) = xs @ ys"
    if "scannedItems s = xs @ x # ys" "itemId x = i"
      "i \<notin> itemId ` set xs" "i \<notin> itemId ` set ys"
  proof -
    have "filter (\<lambda>item. itemId item \<noteq> i) xs = xs"
      and "filter (\<lambda>item. itemId item \<noteq> i) ys = ys"
      using that(3,4) by (auto simp: filter_id_conv)
    then show ?thesis
      using that(1,2) by (simp add: removeItem_def)
  qed
  have rest: "i \<notin> itemId ` set (scannedItems (removeItem i s))"
    "set (scannedItems (removeItem i s)) = {item \<in> set (scannedItems s). itemId item \<noteq> i}"
    "subseq (scannedItems (removeItem i s)) (scannedItems s)"
    "isScanning (removeItem i s) = isScanning s" "message (removeItem i s) = message s"
    by (auto simp: removeItem_def)
  show ?thesis
    using removeItem_absent [of i s] one rest by blast
qed

theorem C9_remove_item_witness:
  "scannedItems (removeItem ''2000'' threeRecords) = [newItem 1000 ''A1'', newItem 3000 ''A3''] \<and>
   removeItem ''4000'' threeRecords = threeRecords"
proof -
  have ids: "toString 1000 = ''1000''" "toString 2000 = ''2000''" "toString 3000 = ''3000''"
    by code_simp+
  have shape: "scannedItems threeRecords = [newItem 1000 ''A1''] @ newItem 2000 ''A2'' # [newItem 3000 ''A3'']
      \<and> itemId (newItem 2000 ''A2'') = ''2000''
      \<and> ''2000'' \<notin> itemId ` set [newItem 1000 ''A1'']
      \<and> ''2000'' \<notin> itemId ` set [newItem 3000 ''A3'']"
    by (simp add: threeRecords_def newItem_def ids)
  have absent: "''4000'' \<notin> itemId ` set (scannedItems threeRecords)"
    by (simp add: threeRecords_def newItem_def ids)
  note mid = C9_remove_item [where i = "''2000''" and s = threeRecords
      and xs = "[newItem 1000 ''A1'']" and x = "newItem 2000 ''A2''" and ys = "[newItem 3000 ''A3'']"]
  note none = C9_remove_item [where i = "''4000''" and s = threeRecords]
  have "scannedItems (removeItem ''2000'' threeRecords) = [newItem 1000 ''A1''] @ [newItem 3000 ''A3'']"
    using mid [THEN conjunct2, THEN conjunct1] shape by (rule mp)
  moreover have "removeItem ''4000'' threeRecords = threeRecords"
    using none [THEN conjunct1] absent by (rule mp)
  ultimately show ?thesis
    by simp
qed

section \<open>Duplicates\<close>

lemma alreadyScanned_snoc: "alreadyScanned v (items @ [newItem now v])"
  by (simp add: alreadyScanned_def newItem_def list_ex_iff)

text \<open>
  Claim C3. The ref mirrors the list and every record has a non-empty serial value. If the
  list already has a record whose serial value is the trimmed value, \<^verbatim>\<open>saveScannedBarcode\<close>
  leaves the list as it was and sets the error message that names the trimmed value. And on
  any page whose list does not have the value: the first recording appends one record and
  reports success; after the re-render, a second recording of a value that trims to the same
  text leaves the list as it was and reports the duplicate, so the list holds exactly one
  record with that serial value.
\<close>

theorem C3_duplicate_rejected:
  assumes "scannedItemsRef s = scannedItems s"
    and "alreadyScanned (trim v) (scannedItems s)"
    and "list_all (\<lambda>item. serialNumber item \<noteq> []) (scannedItems s)"
  shows "scannedItems (saveScannedBarcode now v s) = scannedItems s \<and>
         message (saveScannedBarcode now v s)
           = Some (Error, ''Serial number '' @ trim v @ '' already scanned!'') \<and>
         (scannedItemsRef p = scannedItems p \<and> trim w \<noteq> [] \<and> trim w' = trim w \<and>
          \<not> alreadyScanned (trim w) (scannedItems p) \<longrightarrow>
            scannedItems (saveScannedBarcode t1 w p) = scannedItems p @ [newItem t1 (trim w)] \<and>
            message (saveScannedBarcode t1 w p) = Some (Success, ''Scanned: '' @ trim w) \<and>
            scannedItems (saveScannedBarcode t2 w' (syncRef (saveScannedBarcode t1 w p)))
              = scannedItems p @ [newItem t1 (trim w)] \<and>
            message (saveScannedBarcode t2 w' (syncRef (saveScannedBarcode t1 w p)))
              = Some (Error, ''Serial number '' @ trim w @ '' already scanned!'') \<and>
            length (filter (\<lambda>item. serialNumber item = trim w)
              (scannedItems (saveScannedBarcode t2 w' (syncRef (saveScannedBarcode t1 w p))))) = 1)"
proof -
  have some: "trim v \<noteq> []"
    using assms(2,3) by (auto simp: alreadyScanned_def list_ex_iff list_all_iff)
  have dup: "scannedItems (saveScannedBarcode now v s) = scannedItems s"
    "message (saveScannedBarcode now v s)
       = Some (Error, ''Serial number '' @ trim v @ '' already scanned!'')"
    using assms(1,2) some by (simp_all add: save_items save_message)
  have twice: "scannedItems (saveScannedBarcode t1 w p) = scannedItems p @ [newItem t1 (trim w)] \<and>
      message (saveScannedBarcode t1 w p) = Some (Success, ''Scanned: '' @ trim w) \<and>
      scannedItems (saveScannedBarcode t2 w' (syncRef (saveScannedBarcode t1 w p)))
        = scannedItems p @ [newItem t1 (trim w)] \<and>
      message (saveScannedBarcode t2 w' (syncRef (saveScannedBarcode t1 w p)))
        = Some (Error, ''Serial number '' @ trim w @ '' already scanned!'') \<and>
      length (filter (\<lambda>item. serialNumber item = trim w)
        (scannedItems (saveScannedBarcode t2 w' (syncRef (saveScannedBarcode t1 w p))))) = 1"
    if sync: "scannedItemsRef p = scannedItems p" and w: "trim w \<noteq> []" "trim w' = trim w"
      and new: "\<not> alreadyScanned (trim w) (scannedItems p)"
  proof -
    let ?p1 = "syncRef (saveScannedBarcode t1 w p)"
    have first: "scannedItems (saveScannedBarcode t1 w p) = scannedItems p @ [newItem t1 (trim w)]"
      "message (saveScannedBarcode t1 w p) = Some (Success, ''Scanned: '' @ trim w)"
      using sync w(1) new by (simp_all add: save_items save_message)
    have ref1: "scannedItemsRef ?p1 = scannedItems p @ [newItem t1 (trim w)]"
      and items1: "scannedItems ?p1 = scannedItems p @ [newItem t1 (trim w)]"
      using first(1) by (simp_all add: syncRef_def)
    have second: "scannedItems (saveScannedBarcode t2 w' ?p1) = scannedItems p @ [newItem t1 (trim w)]"
      "message (saveScannedBarcode t2 w' ?p1)
         = Some (Error, ''Serial number '' @ trim w @ '' already scanned!'')"
      using w by (simp_all add: save_items save_message ref1 items1 alreadyScanned_snoc)
    have none: "filter (\<lambda>item. serialNumber item = trim w) (scannedItems p) = []"
      using new by (auto simp: alreadyScanned_def list_ex_iff filter_empty_conv)
    have "length (filter (\<lambda>item. serialNumber item = trim w)
        (scannedItems (saveScannedBarcode t2 w' ?p1))) = 1"
      by (simp add: second(1) none newItem_def)
    with first second show ?thesis
      by simp
  qed
  show ?thesis
    using dup twice by blast
qed


theorem C3_duplicate_rejected_witness:
  "scannedItemsRef (run initialPage (typing [(1000, CHR ''X''), (1010, CHR ''Y'')] @ [(1020, enterKey)]))
     = scannedItems (run initialPage (typing [(1000, CHR ''X''), (1010, CHR ''Y'')] @ [(1020, enterKey)])) \<and>
   alreadyScanned (trim '' XY'')
     (scannedItems (run initialPage (typing [(1000, CHR ''X''), (1010, CHR ''Y'')] @ [(1020, enterKey)]))) \<and>
   scannedItems (saveScannedBarcode 2000 '' XY''
       (run initialPage (typing [(1000, CHR ''X''), (1010, CHR ''Y'')] @ [(1020, enterKey)])))
     = scannedItems (run initialPage (typing [(1000, CHR ''X''), (1010, CHR ''Y'')] @ [(1020, enterKey)])) \<and>
   message (saveScannedBarcode 2000 '' XY''
       (run initialPage (typing [(1000, CHR ''X''), (1010, CHR ''Y'')] @ [(1020, enterKey)])))
     = Some (Error, ''Serial number XY already scanned!'') \<and>
   scannedItems (saveScannedBarcode 1100 ''XY '' (syncRef (saveScannedBarcode 1000 ''XY'' initialPage)))
     = [newItem 1000 ''XY'']"
proof -
  let ?s = "run initialPage (typing [(1000, CHR ''X''), (1010, CHR ''Y'')] @ [(1020, enterKey)])"
  have sync: "scannedItemsRef ?s = scannedItems ?s"
    by code_simp
  have has: "alreadyScanned (trim '' XY'') (scannedItems ?s)"
    by code_simp
  have full: "list_all (\<lambda>item. serialNumber item \<noteq> []) (scannedItems ?s)"
    by code_simp
  have trims: "trim '' XY'' = ''XY''" "trim ''XY'' = ''XY''" "trim ''XY '' = ''XY''"
    by (simp_all add: trim_def isWhiteSpace_def)
  have new: "scannedItemsRef initialPage = scannedItems initialPage \<and> trim ''XY'' \<noteq> [] \<and>
      trim ''XY '' = trim ''XY'' \<and> \<not> alreadyScanned (trim ''XY'') (scannedItems initialPage)"
    by (simp add: trims initialPage_def alreadyScanned_def)
  note all = C3_duplicate_rejected [OF sync has full, where now = 2000 and p = initialPage
      and w = "''XY''" and w' = "''XY ''" and ?t1.0 = 1000 and ?t2.0 = 1100]
  note twice = all [THEN conjunct2, THEN conjunct2, THEN mp, OF new]
  have "scannedItems (saveScannedBarcode 2000 '' XY'' ?s) = scannedItems ?s"
    by (rule all [THEN conjunct1])
  moreover have "message (saveScannedBarcode 2000 '' XY'' ?s)
      = Some (Error, ''Serial number XY already scanned!'')"
    using all [THEN conjunct2, THEN conjunct1] by (simp only: trims append.simps)
  moreover have "scannedItems (saveScannedBarcode 1100 ''XY '' (syncRef (saveScannedBarcode 1000 ''XY'' initialPage)))
      = [newItem 1000 ''XY'']"
    using twice [THEN conjunct2, THEN conjunct2, THEN conjunct1]
    by (simp add: trims initialPage_def)
  ultimately show ?thesis
    using sync has by blast
qed

text \<open>
  On the keyboard page the serial values stay pairwise distinct under every event: the
  duplicate check reads the ref, which mirrors the current list.
\<close>

lemma save_serials_distinct:
  assumes "scannedItemsRef s = scannedItems s" "distinct (map serialNumber (scannedItems s))"
  shows "distinct (map serialNumber (scannedItems (saveScannedBarcode now v s)))"
  using assms by (auto simp: save_items alreadyScanned_def list_ex_iff newItem_def)

lemma fireTimer_serials_distinct:
  assumes "scannedItemsRef s = scannedItems s" "distinct (map serialNumber (scannedItems s))"
  shows "distinct (map serialNumber (scannedItems (fireTimer h d s)))"
proof -
  have "scannedItemsRef (clearTimeout h s) = scannedItems (clearTimeout h s)"
    "distinct (map serialNumber (scannedItems (clearTimeout h s)))"
    using assms by (simp_all add: clearTimeout_def)
  then show ?thesis
    using save_serials_distinct [of "clearTimeout h s" d "scanBufferRef (clearTimeout h s)"]
    by (simp add: fireTimer_def syncRef_def autoSaveCallback_def)
qed

lemma advance_serials_distinct:
  assumes "timersOk s" "scannedItemsRef s = scannedItems s"
    "distinct (map serialNumber (scannedItems s))"
  shows "distinct (map serialNumber (scannedItems (advance now s)))"
    and "scannedItemsRef (advance now s) = scannedItems (advance now s)"
proof -
  have "distinct (map serialNumber (scannedItems (advance now s))) \<and>
      scannedItemsRef (advance now s) = scannedItems (advance now s)"
    using assms(1)
  proof (cases rule: timersOk_cases)
    case 1
    then show ?thesis using assms by (simp add: advance_idle)
  next
    case (2 h d)
    show ?thesis
    proof (cases "d \<le> now")
      case True
      then show ?thesis
        using advance_single(1) [OF 2(1) True] fireTimer_serials_distinct [OF assms(2,3)]
        by (simp add: fireTimer_fields)
    next
      case False
      then show ?thesis using 2 assms by (simp add: advance_idle)
    qed
  qed
  then show "distinct (map serialNumber (scannedItems (advance now s)))"
    and "scannedItemsRef (advance now s) = scannedItems (advance now s)"
    by simp_all
qed

lemma handle_serials_distinct:
  assumes "scannedItemsRef s = scannedItems s" "distinct (map serialNumber (scannedItems s))"
  shows "distinct (map serialNumber (scannedItems (handleGlobalKeyDown now e s)))"
proof -
  have char: "scannedItems (setAutoSaveTimeout now' s') = scannedItems s'" for now' s'
    by (simp add: setAutoSaveTimeout_def)
  show ?thesis
    using assms save_serials_distinct [OF assms, of now "scanBufferRef s"]
    by (simp add: handleGlobalKeyDown_def char clearAutoSave_def clearTimeout_def Let_def
        split: option.splits)
qed

lemma step_serials_distinct:
  assumes "timersOk s" "scannedItemsRef s = scannedItems s"
    "distinct (map serialNumber (scannedItems s))"
  shows "distinct (map serialNumber (scannedItems (step now ev s)))"
proof -
  note adv = advance_serials_distinct [OF assms, of now]
  show ?thesis
  proof (cases ev)
    case (KeyDown e)
    then show ?thesis
      using handle_serials_distinct [OF adv(2,1), of now e] by (simp add: step_simps syncRef_def)
  next
    case ToggleScanning
    then show ?thesis
      using adv(1)
      by (simp add: step_simps syncRef_def effectCleanup_def toggleScanning_def clearTimeout_def
          split: option.splits)
  next
    case (RemoveItem i)
    then show ?thesis
      using adv(1) by (simp add: step_simps syncRef_def removeItem_def distinct_map_filter)
  qed
qed

lemma run_serials_distinct:
  assumes "timersOk s" "scannedItemsRef s = scannedItems s"
    "distinct (map serialNumber (scannedItems s))"
  shows "distinct (map serialNumber (scannedItems (run s es)))"
  using assms
proof (induction es arbitrary: s)
  case Nil
  then show ?case by simp
next
  case (Cons te es)
  have "scannedItemsRef (step (fst te) (snd te) s) = scannedItems (step (fst te) (snd te) s)"
    by (cases "snd te") (simp_all add: step_simps syncRef_def)
  with Cons show ?case
    by (simp add: timersOk_step step_serials_distinct)
qed

text \<open>
  Claim C5 fails on the camera page. Scanning starts on an empty list, and the decoder reports
  the text X at time 1000 and again at time 1100. The duplicate check of \<^verbatim>\<open>handleScanSuccess\<close>
  reads the list captured when scanning started, which is still empty at the second report,
  so the list ends with two records whose serial value is X.
\<close>

theorem C5_camera_records_duplicate:
  "map serialNumber (scannedItems
      (decoded 1100 ''X'' (decoded 1000 ''X'' (startScanning True initialCamera))))
     = [''X'', ''X'']"
  by code_simp

section \<open>Identifiers\<close>

lemma digitValue_digit: "d < 10 \<Longrightarrow> digitValue (digit d) = d"
  by (simp add: digitValue_def digit_def)

lemma parseNat_snoc: "parseNat (s @ [c]) = 10 * parseNat s + digitValue c"
  by (simp add: parseNat_def)

lemma parseNat_toString: "parseNat (toString n) = n"
proof (induction n rule: toString.induct)
  case (1 n)
  show ?case
  proof (cases "n < 10")
    case True
    then show ?thesis
      by (subst toString.simps) (simp add: parseNat_def digitValue_digit)
  next
    case False
    then show ?thesis
      using 1 by (subst toString.simps) (simp add: parseNat_snoc digitValue_digit)
  qed
qed

lemma idNumber_newItem: "idNumber (newItem now v) = now"
  by (simp add: idNumber_def newItem_def parseNat_toString)

lemma ids_distinct:
  assumes "sorted_wrt (<) (map idNumber items)"
  shows "distinct (map itemId items)"
proof -
  have "distinct (map idNumber items)"
    using assms by (simp add: strict_sorted_iff)
  moreover have "map idNumber items = map parseNat (map itemId items)"
    by (simp add: idNumber_def)
  ultimately have "distinct (map parseNat (map itemId items))"
    by simp
  then show ?thesis
    by (simp only: distinct_map [of parseNat])
qed

lemma ids_append:
  assumes "sorted_wrt (<) (map idNumber items)" "\<forall>item\<in>set items. idNumber item < now"
  shows "sorted_wrt (<) (map idNumber (items @ [newItem now v]))"
  using assms by (simp add: sorted_wrt_append idNumber_newItem)

text \<open>
  Claim C6, as the code has it. The identifier of a new record is the decimal text of the
  clock reading at its creation. If the identifiers in the list are strictly increasing in
  insertion order and the clock reading is greater than all of them, then after
  \<^verbatim>\<open>saveScannedBarcode\<close> (and likewise after the camera's \<^verbatim>\<open>handleScanSuccess\<close>) they are
  still strictly increasing, hence pairwise distinct; removing a record keeps them
  increasing.
\<close>

theorem C6_ids_follow_clock:
  assumes "sorted_wrt (<) (map idNumber (scannedItems s))"
    and "\<forall>item\<in>set (scannedItems s). idNumber item < now"
  shows "sorted_wrt (<) (map idNumber (scannedItems (saveScannedBarcode now v s))) \<and>
         distinct (map itemId (scannedItems (saveScannedBarcode now v s))) \<and>
         sorted_wrt (<) (map idNumber (scannedItems (removeItem i s))) \<and>
         itemId (newItem now v) = toString now \<and> idNumber (newItem now v) = now \<and>
         (sorted_wrt (<) (map idNumber (scannedItems c)) \<and>
          (\<forall>item\<in>set (scannedItems c). idNumber item < now) \<longrightarrow>
            sorted_wrt (<) (map idNumber (scannedItems (handleScanSuccess closureItems now v c))) \<and>
            distinct (map itemId (scannedItems (handleScanSuccess closureItems now v c))))"
proof -
  have kb: "sorted_wrt (<) (map idNumber (scannedItems (saveScannedBarcode now v s)))"
    using assms ids_append [OF assms, of "trim v"] by (simp add: save_items)
  have rm: "sorted_wrt (<) (map idNumber (scannedItems (removeItem i s)))"
    using assms(1) by (simp add: removeItem_def sorted_wrt_map sorted_wrt_filter)
  have cam: "sorted_wrt (<) (map idNumber (scannedItems (handleScanSuccess closureItems now v c)))"
    if "sorted_wrt (<) (map idNumber (scannedItems c))"
      "\<forall>item\<in>set (scannedItems c). idNumber item < now"
    using that ids_append [OF that, of v] by (simp add: handleScanSuccess_def)
  show ?thesis
    using kb rm cam ids_distinct idNumber_newItem [of now v]
    by (auto simp: newItem_def)
qed

theorem C6_ids_follow_clock_witness:
  "sorted_wrt (<) (map idNumber (scannedItems (run initialPage
      [(1000, charKey CHR ''A''), (1000, enterKey)]))) \<and>
   list_all (\<lambda>item. idNumber item < 2000)
     (scannedItems (run initialPage [(1000, charKey CHR ''A''), (1000, enterKey)])) \<and>
   distinct (map itemId (scannedItems (saveScannedBarcode 2000 ''B''
      (run initialPage [(1000, charKey CHR ''A''), (1000, enterKey)])))) \<and>
   distinct (map itemId (scannedItems (handleScanSuccess [] 2000 ''B'' initialCamera)))"
proof -
  let ?s = "run initialPage [(1000, charKey CHR ''A''), (1000, enterKey)]"
  have sorted: "sorted_wrt (<) (map idNumber (scannedItems ?s))"
    by code_simp
  have older: "\<forall>item\<in>set (scannedItems ?s). idNumber item < 2000"
    by code_simp
  have cam: "sorted_wrt (<) (map idNumber (scannedItems initialCamera)) \<and>
      (\<forall>item\<in>set (scannedItems initialCamera). idNumber item < 2000)"
    by (simp add: initialCamera_def)
  note all = C6_ids_follow_clock [OF sorted older, where c = initialCamera and closureItems = "[]"
      and v = "''B''"]
  have "distinct (map itemId (scannedItems (saveScannedBarcode 2000 ''B'' ?s)))"
    by (rule all [THEN conjunct2, THEN conjunct1])
  moreover have "distinct (map itemId (scannedItems (handleScanSuccess [] 2000 ''B'' initialCamera)))"
    using all [THEN conjunct2, THEN conjunct2, THEN conjunct2, THEN conjunct2, THEN conjunct2,
        THEN mp, OF cam]
    by (rule conjunct2)
  ultimately show ?thesis
    using sorted older by (simp add: list_all_iff)
qed

text \<open>
  Claim C6 as stated fails when two records are made at the same clock reading: A, Enter, B,
  Enter, all handled at time 1000, give two records, A and B, that share the identifier 1000.
\<close>

theorem C6_counterexample:
  "map itemId (scannedItems (run initialPage
      [(1000, charKey CHR ''A''), (1000, enterKey), (1000, charKey CHR ''B''), (1000, enterKey)]))
     = [''1000'', ''1000''] \<and>
   map serialNumber (scannedItems (run initialPage
      [(1000, charKey CHR ''A''), (1000, enterKey), (1000, charKey CHR ''B''), (1000, enterKey)]))
     = [''A'', ''B''] \<and>
   \<not> distinct (map itemId (scannedItems (run initialPage
      [(1000, charKey CHR ''A''), (1000, enterKey), (1000, charKey CHR ''B''), (1000, enterKey)])))"
  by code_simp

end
